theory Spec2Isabelle
  imports Main "HOL-Library.Word"
begin

unbundle bit_operations_syntax

section \<open>The packet header macros of stream.c\<close>

text \<open>
  A byte of the stream is an \<open>unsigned char\<close>.  The macros of stream.c index the packet
  buffer and combine the bytes with C's bit operators; the operands are promoted to
  \<open>int\<close> first, so the macros are modelled on \<open>int\<close>, reading a byte with \<open>uint\<close>.
\<close>

type_synonym byte = "8 word"

text \<open>\<^verbatim>\<open>#define PACKET_CAR(_p) ((_p)[0] & 0x1f)\<close>\<close>

definition PACKET_CAR :: "byte list \<Rightarrow> int" where
  "PACKET_CAR p = uint (p ! 0) AND 0x1f"

text \<open>\<^verbatim>\<open>#define PACKET_TYPE(_p) (((_p)[0] >> 5) | (((_p)[1] & 0x01) << 3))\<close>\<close>

definition PACKET_TYPE :: "byte list \<Rightarrow> int" where
  "PACKET_TYPE p = drop_bit 5 (uint (p ! 0)) OR push_bit 3 (uint (p ! 1) AND 0x01)"

text \<open>\<^verbatim>\<open>#define SPECIAL_PACKET_DATA(_p) ((_p)[1] >> 1)\<close>\<close>

definition SPECIAL_PACKET_DATA :: "byte list \<Rightarrow> int" where
  "SPECIAL_PACKET_DATA p = drop_bit 1 (uint (p ! 1))"

text \<open>\<^verbatim>\<open>#define LONG_PACKET_LEN(_p) (SPECIAL_PACKET_DATA(_p) + 2)\<close>\<close>

definition LONG_PACKET_LEN :: "byte list \<Rightarrow> int" where
  "LONG_PACKET_LEN p = SPECIAL_PACKET_DATA p + 2"

text \<open>\<^verbatim>\<open>#define SHORT_PACKET_NUL(_p) (((_p)[1] & 0xf0) == 0xf0)\<close>\<close>

definition SHORT_PACKET_NUL :: "byte list \<Rightarrow> bool" where
  "SHORT_PACKET_NUL p \<longleftrightarrow> uint (p ! 1) AND 0xf0 = 0xf0"

text \<open>\<^verbatim>\<open>#define SHORT_PACKET_LEN(_p) ((SHORT_PACKET_NUL(_p) ? 0 : ((_p)[1] >> 4)) + 2)\<close>\<close>

definition SHORT_PACKET_LEN :: "byte list \<Rightarrow> int" where
  "SHORT_PACKET_LEN p = (if SHORT_PACKET_NUL p then 0 else drop_bit 4 (uint (p ! 1))) + 2"

text \<open>\<^verbatim>\<open>#define SPECIAL_PACKET_LEN(_p) 2\<close>\<close>

definition SPECIAL_PACKET_LEN :: "byte list \<Rightarrow> int" where
  "SPECIAL_PACKET_LEN p = 2"

text \<open>\<^verbatim>\<open>#define MAX_CAR_NUMBER 99\<close> (packetdef.h)\<close>

definition MAX_CAR_NUMBER :: int where
  "MAX_CAR_NUMBER = 99"

subsection \<open>The packet type enumerations of stream.c\<close>

text \<open>
  \<open>CarPacketType\<close> and \<open>SystemPacketType\<close> are C enums; the switch of \<open>next_packet\<close>
  casts the 4-bit type code to them, so an enumerator is its integer value.
\<close>

definition CAR_POSITION_UPDATE :: int where "CAR_POSITION_UPDATE = 0"

definition CAR_POSITION :: int where "CAR_POSITION = 1"

definition CAR_NUMBER :: int where "CAR_NUMBER = 2"

definition CAR_DRIVER :: int where "CAR_DRIVER = 3"

definition CAR_POSITION_HISTORY :: int where "CAR_POSITION_HISTORY = 15"

definition SYS_EVENT_ID :: int where "SYS_EVENT_ID = 1"

definition SYS_KEY_FRAME :: int where "SYS_KEY_FRAME = 2"

definition SYS_UNKNOWN_SPECIAL_A :: int where "SYS_UNKNOWN_SPECIAL_A = 3"

definition SYS_UNKNOWN_LONG_A :: int where "SYS_UNKNOWN_LONG_A = 4"

definition SYS_UNKNOWN_SPECIAL_B :: int where "SYS_UNKNOWN_SPECIAL_B = 5"

definition SYS_UNKNOWN_LONG_B :: int where "SYS_UNKNOWN_LONG_B = 6"

definition SYS_STRANGE_A :: int where "SYS_STRANGE_A = 7"

definition SYS_UNKNOWN_SPECIAL_C :: int where "SYS_UNKNOWN_SPECIAL_C = 8"

definition SYS_UNKNOWN_SHORT_A :: int where "SYS_UNKNOWN_SHORT_A = 9"

definition SYS_UNKNOWN_LONG_C :: int where "SYS_UNKNOWN_LONG_C = 10"

definition SYS_UNKNOWN_SHORT_B :: int where "SYS_UNKNOWN_SHORT_B = 11"

definition SYS_COPYRIGHT :: int where "SYS_COPYRIGHT = 12"

lemmas enum_defs =
  CAR_POSITION_UPDATE_def CAR_POSITION_def CAR_NUMBER_def CAR_DRIVER_def
  CAR_POSITION_HISTORY_def SYS_EVENT_ID_def SYS_KEY_FRAME_def SYS_UNKNOWN_SPECIAL_A_def
  SYS_UNKNOWN_LONG_A_def SYS_UNKNOWN_SPECIAL_B_def SYS_UNKNOWN_LONG_B_def SYS_STRANGE_A_def
  SYS_UNKNOWN_SPECIAL_C_def SYS_UNKNOWN_SHORT_A_def SYS_UNKNOWN_LONG_C_def
  SYS_UNKNOWN_SHORT_B_def SYS_COPYRIGHT_def

declare enum_defs [simp]

section \<open>The length classification of next_packet\<close>

text \<open>
  Lines 303 to 335 of stream.c: the two switches that set \<open>expected\<close> from the two header
  bytes in the packet buffer.  \<open>expected\<close> is a \<open>size_t\<close>; every branch yields a
  non-negative \<open>int\<close>, converted here with \<open>nat\<close>.
\<close>

definition expected_length :: "byte list \<Rightarrow> nat" where
  "expected_length packet =
     nat (if PACKET_CAR packet \<noteq> 0 then
            (if PACKET_TYPE packet = CAR_POSITION_UPDATE then SPECIAL_PACKET_LEN packet
             else if PACKET_TYPE packet = CAR_POSITION_HISTORY then LONG_PACKET_LEN packet
             else SHORT_PACKET_LEN packet)
          else
            (if PACKET_TYPE packet = SYS_UNKNOWN_SPECIAL_A
                \<or> PACKET_TYPE packet = SYS_UNKNOWN_SPECIAL_B
                \<or> PACKET_TYPE packet = SYS_UNKNOWN_SPECIAL_C then SPECIAL_PACKET_LEN packet
             else if PACKET_TYPE packet = SYS_EVENT_ID
                \<or> PACKET_TYPE packet = SYS_KEY_FRAME
                \<or> PACKET_TYPE packet = SYS_UNKNOWN_SHORT_A
                \<or> PACKET_TYPE packet = SYS_UNKNOWN_SHORT_B then SHORT_PACKET_LEN packet
             else if PACKET_TYPE packet = SYS_STRANGE_A then 4
             else LONG_PACKET_LEN packet))"

text \<open>\<open>static unsigned char packet[129]\<close>: the capacity of the assembly buffer.\<close>

definition packet_capacity :: nat where
  "packet_capacity = 129"

section \<open>The assembly state and next_packet\<close>

text \<open>
  The two statics of \<open>parse_stream_block\<close>: \<open>static unsigned char packet[129]\<close> and
  \<open>static size_t packet_len\<close>.  They persist from one call to the next.
\<close>

record assembler =
  packet :: "byte list"
  packet_len :: nat

text \<open>
  The statics as the C runtime initialises them: a zeroed buffer and \<open>packet_len = 0\<close>.
\<close>

definition initial_assembler :: assembler where
  "initial_assembler = \<lparr>packet = replicate 129 0, packet_len = 0\<rparr>"

text \<open>
  \<open>size_t\<close> is taken as 64 bits wide.  The only subtraction of \<open>next_packet\<close> that can
  wrap is \<open>expected - *packet_len\<close>; it is written out modulo \<open>SIZE_MAX + 1\<close>.
\<close>

definition SIZE_MAX :: nat where
  "SIZE_MAX = 2 ^ 64 - 1"

definition size_t_sub :: "nat \<Rightarrow> nat \<Rightarrow> nat" where
  "size_t_sub x y = (x + (SIZE_MAX + 1) - y) mod (SIZE_MAX + 1)"

text \<open>
  \<open>memcpy (dst + off, src, n)\<close>: the \<open>n\<close> bytes at \<open>src\<close> replace those of \<open>dst\<close> from index
  \<open>off\<close> on.  A copy that would write past the end of \<open>dst\<close> or read past the end of \<open>src\<close>
  is undefined behaviour in C; the model returns \<open>None\<close> there.
\<close>

definition memcpy :: "byte list \<Rightarrow> nat \<Rightarrow> byte list \<Rightarrow> nat \<Rightarrow> byte list option" where
  "memcpy dst off src n =
     (if off + n \<le> length dst \<and> n \<le> length src
      then Some (take off dst @ take n src @ drop (off + n) dst)
      else None)"

text \<open>
  The four statements that occur twice in \<open>next_packet\<close> (lines 293 to 297 and 339 to 343):
  \<^verbatim>\<open>
  memcpy (packet + *packet_len, *buf, needed);
  *packet_len += needed;
  *buf += needed;
  *buf_len -= needed;
  \<close>
  The pointer \<open>*buf\<close> is the list of the bytes it points to, so advancing it by \<open>needed\<close>
  drops that many bytes; \<open>*buf_len\<close> is kept beside it as the C code does.  \<open>needed\<close> never
  exceeds \<open>*buf_len\<close>, and a copy that succeeds keeps \<open>*packet_len\<close> within the buffer, so
  neither update wraps.
\<close>

definition copy_needed ::
  "assembler \<Rightarrow> byte list \<Rightarrow> nat \<Rightarrow> nat \<Rightarrow> (assembler \<times> byte list \<times> nat) option" where
  "copy_needed a buf buf_len needed =
     (case memcpy (packet a) (packet_len a) buf needed of
        None \<Rightarrow> None
      | Some pk \<Rightarrow>
          Some (a\<lparr>packet := pk, packet_len := packet_len a + needed\<rparr>,
                drop needed buf, buf_len - needed))"

text \<open>
  Lines 302 to 345: with the two header bytes in the buffer, compute \<open>expected\<close>, copy as
  much as the input has, and return whether the packet is complete.
\<close>

definition copy_body ::
  "assembler \<Rightarrow> byte list \<Rightarrow> nat \<Rightarrow> (bool \<times> assembler \<times> byte list \<times> nat) option" where
  "copy_body a buf buf_len =
     (let expected = expected_length (packet a);
          needed = min buf_len (size_t_sub expected (packet_len a))
      in case copy_needed a buf buf_len needed of
           None \<Rightarrow> None
         | Some (a', buf', buf_len') \<Rightarrow> Some (packet_len a' = expected, a', buf', buf_len'))"

text \<open>
  \<open>next_packet (packet, &packet_len, &buf, &buf_len)\<close>.  The result is the returned flag
  (\<open>True\<close> for 1) with the new values of the three in-out parameters.
\<close>

definition next_packet ::
  "assembler \<Rightarrow> byte list \<Rightarrow> nat \<Rightarrow> (bool \<times> assembler \<times> byte list \<times> nat) option" where
  "next_packet a buf buf_len =
     (if packet_len a < 2 then
        (let needed = min buf_len (2 - packet_len a)
         in case copy_needed a buf buf_len needed of
              None \<Rightarrow> None
            | Some (a', buf', buf_len') \<Rightarrow>
                if packet_len a' < 2 then Some (False, a', buf', buf_len')
                else copy_body a' buf' buf_len')
      else copy_body a buf buf_len)"

section \<open>parse_stream_block\<close>

text \<open>
  The loop of \<open>parse_stream_block\<close>:
  \<^verbatim>\<open>
  while (next_packet (packet, &packet_len, &buf, &buf_len)) {
          packet_len = 0;
  }
  \<close>
  The C body does nothing with a completed packet but reset the length.  To observe the
  loop, the model records one event for each pass through the body: the completed packet,
  which is \<open>packet[0 .. packet_len)\<close> on entry to the body, and the assembly state the body
  leaves behind.
\<close>

type_synonym event = "byte list \<times> assembler"

function parse_loop ::
  "assembler \<Rightarrow> byte list \<Rightarrow> nat \<Rightarrow> (event list \<times> assembler) option" where
  "parse_loop a buf buf_len =
     (case next_packet a buf buf_len of
        None \<Rightarrow> None
      | Some (complete, a', buf', buf_len') \<Rightarrow>
          if complete then
            map_option (\<lambda>(evs, af). ((take (packet_len a') (packet a'), a'\<lparr>packet_len := 0\<rparr>) # evs, af))
              (parse_loop (a'\<lparr>packet_len := 0\<rparr>) buf' buf_len')
          else Some ([], a'))"
  by pat_completeness auto
termination
proof (relation "measure (\<lambda>(a, buf, buf_len). 2 * buf_len + (if packet_len a = 0 then 0 else 1))")
  show "wf (measure (\<lambda>(a, buf, buf_len). 2 * buf_len + (if packet_len a = 0 then 0 else 1)))"
    by simp
next
  fix a :: assembler and buf :: "byte list" and buf_len :: nat
    and x2 :: "bool \<times> assembler \<times> byte list \<times> nat"
    and complete :: bool and y :: "assembler \<times> byte list \<times> nat"
    and a' :: assembler and ya :: "byte list \<times> nat" and buf' :: "byte list" and buf_len' :: nat
  assume np: "next_packet a buf buf_len = Some x2"
    and x2: "(complete, y) = x2" and y: "(a', ya) = y" and ya: "(buf', buf_len') = ya"
    and c: complete
  have eq: "next_packet a buf buf_len = Some (True, a', buf', buf_len')"
    using np x2 y ya c by simp
  have cn: "n1 = n - k \<and> packet_len a1 = packet_len a0 + k"
    if "copy_needed a0 b n k = Some (a1, b1, n1)" for a0 b n k a1 b1 n1
    using that by (auto simp: copy_needed_def split: option.splits)
  have cb: "n1 \<le> n" if "copy_body a0 b n = Some (r, a1, b1, n1)" for a0 b n r a1 b1 n1
    using that cn by (fastforce simp: copy_body_def Let_def split: option.splits)
  have "buf_len' \<le> buf_len \<and> (packet_len a = 0 \<longrightarrow> buf_len' < buf_len)"
  proof (cases "packet_len a < 2")
    case False
    then show ?thesis using eq cb by (simp add: next_packet_def)
  next
    case True
    then obtain a1 b1 n1 where
      c1: "copy_needed a buf buf_len (min buf_len (2 - packet_len a)) = Some (a1, b1, n1)"
      and ge: "\<not> packet_len a1 < 2" and c2: "copy_body a1 b1 n1 = Some (True, a', buf', buf_len')"
      using eq by (auto simp: next_packet_def Let_def split: option.splits if_splits)
    from cn [OF c1] cb [OF c2] ge show ?thesis by auto
  qed
  then show "((a'\<lparr>packet_len := 0\<rparr>, buf', buf_len'), (a, buf, buf_len))
        \<in> measure (\<lambda>(a, buf, buf_len). 2 * buf_len + (if packet_len a = 0 then 0 else 1))"
    by auto
qed

declare parse_loop.simps [simp del]

text \<open>
  \<open>parse_stream_block (http_sess, buf, buf_len)\<close> on the statics \<open>a\<close>.  The session handle
  is not used by the function.
\<close>

definition parse_stream_block ::
  "assembler \<Rightarrow> byte list \<Rightarrow> nat \<Rightarrow> (event list \<times> assembler) option" where
  "parse_stream_block a buf buf_len = parse_loop a buf buf_len"

text \<open>
  Feeding a sequence of chunks: one call of \<open>parse_stream_block\<close> for each chunk, in order,
  the statics carried from call to call.
\<close>

fun feed_chunks :: "assembler \<Rightarrow> byte list list \<Rightarrow> (event list \<times> assembler) option" where
  "feed_chunks a [] = Some ([], a)"
| "feed_chunks a (c # cs) =
     (case parse_stream_block a c (length c) of
        None \<Rightarrow> None
      | Some (evs, a') \<Rightarrow> map_option (\<lambda>(evs', af). (evs @ evs', af)) (feed_chunks a' cs))"

text \<open>
  A valid packet: the two header bytes followed by exactly the data bytes that the
  header's length class asks for.
\<close>

definition valid_packet :: "byte list \<Rightarrow> bool" where
  "valid_packet bs \<longleftrightarrow> 2 \<le> length bs \<and> length bs = expected_length bs"

text \<open>
  The buffer of the C program always has its 129 bytes; a list of any other length is not
  a state of the program.
\<close>

definition well_formed :: "assembler \<Rightarrow> bool" where
  "well_formed a \<longleftrightarrow> length (packet a) = packet_capacity"

text \<open>
  The states between two calls of \<open>next_packet\<close>: the bytes buffered so far are fewer than
  two, or fewer than the length their header asks for.
\<close>

definition awaiting :: "assembler \<Rightarrow> bool" where
  "awaiting a \<longleftrightarrow>
     well_formed a \<and> (packet_len a < 2 \<or> packet_len a < expected_length (packet a))"

text \<open>
  An assembler that holds the first \<open>j\<close> bytes of the byte sequence \<open>bs\<close>.
\<close>

definition buffered :: "assembler \<Rightarrow> byte list \<Rightarrow> nat \<Rightarrow> bool" where
  "buffered a bs j \<longleftrightarrow>
     well_formed a \<and> packet_len a = j \<and> take j (packet a) = take j bs"

section \<open>read_stream\<close>

text \<open>
  The system calls that \<open>read_stream\<close> makes on the socket, in the order it makes them:
  \<open>poll\<close>, \<open>write\<close> with the bytes written, \<open>read\<close> with the size asked for, \<open>close\<close>.
\<close>

datatype syscall = Poll | Write "byte list" | Read nat | Close

text \<open>
  What the operating system answers during one call: the result of \<open>poll\<close> and the
  \<open>revents\<close> it stores, the result of \<open>write\<close>, the result of \<open>read\<close> and the contents
  of \<open>buf\<close> after it.
\<close>

record os_reply =
  poll_ret :: int
  poll_revents :: int
  write_ret :: int
  read_ret :: int
  read_buf :: "byte list"

text \<open>The event flags of \<open>sys/poll.h\<close>, with their values on Linux.\<close>

definition POLLIN :: int where "POLLIN = 0x001"

definition POLLERR :: int where "POLLERR = 0x008"

definition POLLHUP :: int where "POLLHUP = 0x010"

definition POLLNVAL :: int where "POLLNVAL = 0x020"

definition INT_MAX :: int where
  "INT_MAX = 2147483647"

text \<open>
  The statics that a call of \<open>read_stream\<close> reads and writes: its own \<open>static int timer\<close>
  and, through \<open>parse_stream_block\<close>, the assembly state.
\<close>

record reader =
  timer :: int
  assembly :: assembler

definition initial_reader :: reader where
  "initial_reader = \<lparr>timer = 0, assembly = initial_assembler\<rparr>"

text \<open>
  \<open>read_stream (http_sess, sock)\<close>.  The result is the returned \<open>int\<close>, the statics after
  the call and the system calls made.  \<open>timer++\<close> on \<open>INT_MAX\<close> is a signed overflow,
  undefined in C, and \<open>None\<close> here, as is a copy outside the arrays in
  \<open>parse_stream_block\<close>.
\<close>

definition read_stream :: "reader \<Rightarrow> os_reply \<Rightarrow> (int \<times> reader \<times> syscall list) option" where
  "read_stream r os =
     (if poll_ret os < 0 then Some (- 1, r, [Poll, Close])
      else if poll_ret os = 0 then
        (if timer r = INT_MAX then None
         else if timer r < 10 then Some (1, r\<lparr>timer := timer r + 1\<rparr>, [Poll])
         else if write_ret os < 0 then
           Some (- 1, r\<lparr>timer := timer r + 1\<rparr>, [Poll, Write [0x10], Close])
         else Some (1, r\<lparr>timer := 0\<rparr>, [Poll, Write [0x10]]))
      else if poll_revents os AND (POLLERR OR POLLNVAL) \<noteq> 0 then Some (- 1, r, [Poll, Close])
      else if poll_revents os AND POLLHUP \<noteq> 0 then Some (0, r, [Poll, Close])
      else if poll_revents os AND POLLIN \<noteq> 0 then
        (if read_ret os < 0 then Some (- 1, r, [Poll, Read 512, Close])
         else if read_ret os = 0 then Some (0, r, [Poll, Read 512, Close])
         else
           (case parse_stream_block (assembly r) (read_buf os) (nat (read_ret os)) of
              None \<Rightarrow> None
            | Some (evs, a') \<Rightarrow>
                Some (read_ret os, r\<lparr>timer := 0, assembly := a'\<rparr>, [Poll, Read 512])))
      else Some (poll_ret os, r\<lparr>timer := 0\<rparr>, [Poll]))"

text \<open>
  Successive calls of \<open>read_stream\<close>, as the caller's loop makes them, one for each reply
  of the operating system; the system calls of all of them in order.
\<close>

fun poll_calls :: "reader \<Rightarrow> os_reply list \<Rightarrow> (syscall list \<times> reader) option" where
  "poll_calls r [] = Some ([], r)"
| "poll_calls r (os # oss) =
     (case read_stream r os of
        None \<Rightarrow> None
      | Some (ret, r', tr) \<Rightarrow> map_option (\<lambda>(trs, rf). (tr @ trs, rf)) (poll_calls r' oss))"

text \<open>The bytes written to the socket by a sequence of system calls.\<close>

fun written :: "syscall list \<Rightarrow> byte list" where
  "written [] = []"
| "written (Write bs # tr) = bs @ written tr"
| "written (_ # tr) = written tr"

text \<open>
  An idle poll: \<open>poll\<close> times out, and the \<open>write\<close> of the keepalive byte, if the call
  makes it, succeeds.
\<close>

definition idle :: "os_reply \<Rightarrow> bool" where
  "idle os \<longleftrightarrow> poll_ret os = 0 \<and> 0 \<le> write_ret os"

text \<open>
  Data arrives: \<open>poll\<close> reports the socket readable with no error and no hang-up, and
  \<open>read\<close> returns a positive count of bytes that \<open>buf\<close> holds.
\<close>

definition data_arrives :: "os_reply \<Rightarrow> bool" where
  "data_arrives os \<longleftrightarrow>
     0 < poll_ret os \<and> poll_revents os AND (POLLERR OR POLLNVAL) = 0
     \<and> poll_revents os AND POLLHUP = 0 \<and> poll_revents os AND POLLIN \<noteq> 0
     \<and> 0 < read_ret os \<and> nat (read_ret os) \<le> length (read_buf os)"

text \<open>A reply of the operating system to a call in which nothing happens on the socket.\<close>

definition quiet :: os_reply where
  "quiet = \<lparr>poll_ret = 0, poll_revents = 0, write_ret = 1, read_ret = 0, read_buf = []\<rparr>"

text \<open>
  The calls of \<open>read_stream\<close> on one connection.  The comment of the function gives its
  contract with the caller: \<^verbatim>\<open>Returns: 0 if socket closed, > 0 on success, < 0 on error\<close>.
  The caller calls again while the result is positive; a result of 0 or below, with the
  socket closed by the call, ends the connection and whatever the operating system would
  answer next is never asked for.  The results of the calls made, their system calls in
  order, and the statics after the last call.
\<close>

fun connection :: "reader \<Rightarrow> os_reply list \<Rightarrow> (int list \<times> syscall list \<times> reader) option" where
  "connection r [] = Some ([], [], r)"
| "connection r (os # oss) =
     (case read_stream r os of
        None \<Rightarrow> None
      | Some (ret, r', tr) \<Rightarrow>
          if ret \<le> 0 then Some ([ret], tr, r')
          else map_option (\<lambda>(rets, trs, rf). (ret # rets, tr @ trs, rf)) (connection r' oss))"

text \<open>
  \<open>poll\<close> reports a hang-up and neither \<open>POLLERR\<close> nor \<open>POLLNVAL\<close>.
\<close>

definition hang_up :: "os_reply \<Rightarrow> bool" where
  "hang_up os \<longleftrightarrow>
     0 < poll_ret os \<and> poll_revents os AND (POLLERR OR POLLNVAL) = 0
     \<and> poll_revents os AND POLLHUP \<noteq> 0"

text \<open>
  \<open>poll\<close> reports the socket readable, with no error and no hang-up, so that the call
  reads, and \<open>read\<close> returns 0.
\<close>

definition zero_read :: "os_reply \<Rightarrow> bool" where
  "zero_read os \<longleftrightarrow>
     0 < poll_ret os \<and> poll_revents os AND (POLLERR OR POLLNVAL) = 0
     \<and> poll_revents os AND POLLHUP = 0 \<and> poll_revents os AND POLLIN \<noteq> 0
     \<and> read_ret os = 0"

text \<open>Replies of the operating system for a hang-up and for the end of the stream.\<close>

definition hung_up :: os_reply where
  "hung_up = \<lparr>poll_ret = 1, poll_revents = POLLHUP, write_ret = 0, read_ret = 0, read_buf = []\<rparr>"

definition end_of_stream :: os_reply where
  "end_of_stream =
     \<lparr>poll_ret = 1, poll_revents = POLLIN, write_ret = 0, read_ret = 0, read_buf = []\<rparr>"

section \<open>Header fields and the expected length\<close>

lemma uint_byte_bounds: "0 \<le> uint (b :: byte) \<and> uint b \<le> 255"
  using uint_lt2p [of b] by simp

lemma SPECIAL_PACKET_DATA_bounds: "0 \<le> SPECIAL_PACKET_DATA p \<and> SPECIAL_PACKET_DATA p \<le> 127"
  using uint_byte_bounds [of "p ! 1"]
  by (simp add: SPECIAL_PACKET_DATA_def drop_bit_eq_div)

lemma LONG_PACKET_LEN_bounds: "2 \<le> LONG_PACKET_LEN p \<and> LONG_PACKET_LEN p \<le> 129"
  using SPECIAL_PACKET_DATA_bounds [of p] by (simp add: LONG_PACKET_LEN_def)

lemma high_nibble_bounds: "0 \<le> uint (b :: byte) div 16 \<and> uint b div 16 \<le> 15"
  using uint_byte_bounds [of b] by presburger

lemma SHORT_PACKET_LEN_bounds: "2 \<le> SHORT_PACKET_LEN p \<and> SHORT_PACKET_LEN p \<le> 17"
  using high_nibble_bounds [of "p ! 1"]
  by (simp add: SHORT_PACKET_LEN_def drop_bit_eq_div)

lemma expected_length_cases:
  assumes "P (nat (SPECIAL_PACKET_LEN p))" and "P (nat (LONG_PACKET_LEN p))"
    and "P (nat (SHORT_PACKET_LEN p))" and "P 4"
  shows "P (expected_length p)"
  unfolding expected_length_def using assms by simp

lemma expected_length_ge2: "2 \<le> expected_length p"
  using LONG_PACKET_LEN_bounds [of p] SHORT_PACKET_LEN_bounds [of p]
  by (rule_tac expected_length_cases) (auto simp add: SPECIAL_PACKET_LEN_def)

lemma expected_length_le129: "expected_length p \<le> 129"
  using LONG_PACKET_LEN_bounds [of p] SHORT_PACKET_LEN_bounds [of p]
  by (rule_tac expected_length_cases) (auto simp add: SPECIAL_PACKET_LEN_def)

lemma PACKET_CAR_bounds: "0 \<le> PACKET_CAR p \<and> PACKET_CAR p \<le> 31"
  unfolding PACKET_CAR_def
  by (simp add: AND_upper2')

text \<open>The classification reads the two header bytes only.\<close>

lemma expected_length_header:
  assumes "p ! 0 = q ! 0" and "p ! 1 = q ! 1"
  shows "expected_length p = expected_length q"
  unfolding expected_length_def PACKET_CAR_def PACKET_TYPE_def SPECIAL_PACKET_LEN_def
    LONG_PACKET_LEN_def SPECIAL_PACKET_DATA_def SHORT_PACKET_LEN_def SHORT_PACKET_NUL_def
  by (simp only: assms)

lemma expected_length_take:
  assumes "2 \<le> k" and "take k p = take k q"
  shows "expected_length p = expected_length q"
proof (rule expected_length_header)
  have "take k p ! 0 = take k q ! 0" and "take k p ! 1 = take k q ! 1"
    using assms by simp_all
  then show "p ! 0 = q ! 0" and "p ! 1 = q ! 1"
    using assms(1) by simp_all
qed

lemma valid_packet_header:
  assumes "valid_packet bs" and "2 \<le> j" and "take j p = take j bs"
  shows "expected_length p = length bs"
  using assms expected_length_take [of j p bs] by (simp add: valid_packet_def)

text \<open>
  The expected length of the headers used as examples below.
\<close>

lemma expected_length_0x20_0x10: "expected_length (0x20 # 0x10 # rest) = 3"
  by (simp add: expected_length_def PACKET_CAR_def PACKET_TYPE_def SHORT_PACKET_LEN_def
      SHORT_PACKET_NUL_def)

lemma expected_length_0x05_0x00: "expected_length (0x05 # 0x00 # rest) = 2"
  by (simp add: expected_length_def PACKET_CAR_def PACKET_TYPE_def SPECIAL_PACKET_LEN_def)

lemma expected_length_0xE1_0xFF: "expected_length (0xE1 # 0xFF # rest) = 129"
  by (simp add: expected_length_def PACKET_CAR_def PACKET_TYPE_def LONG_PACKET_LEN_def
      SPECIAL_PACKET_DATA_def)

section \<open>One call of next_packet\<close>

lemma size_t_sub_no_wrap:
  assumes "y \<le> x" and "x \<le> 129"
  shows "size_t_sub x y = x - y"
proof -
  have eq: "x + (SIZE_MAX + 1) - y = (x - y) + (SIZE_MAX + 1)"
    using assms by simp
  have lt: "x - y < SIZE_MAX + 1"
    using assms by (simp add: SIZE_MAX_def)
  have "size_t_sub x y = ((x - y) + (SIZE_MAX + 1)) mod (SIZE_MAX + 1)"
    unfolding size_t_sub_def by (simp only: eq)
  also have "\<dots> = (x - y) mod (SIZE_MAX + 1)"
    by (simp only: mod_add_self2)
  also have "\<dots> = x - y"
    using lt by (simp only: mod_less)
  finally show ?thesis .
qed

text \<open>The copy of \<open>needed\<close> bytes, when it stays inside both arrays.\<close>

lemma copy_needed_in_bounds:
  assumes "packet_len a + k \<le> length (packet a)" and "k \<le> length buf"
  shows "copy_needed a buf n k =
           Some (a\<lparr>packet := take (packet_len a) (packet a) @ take k buf
                               @ drop (packet_len a + k) (packet a),
                    packet_len := packet_len a + k\<rparr>,
                 drop k buf, n - k)"
  using assms by (simp add: copy_needed_def memcpy_def)

lemma copy_needed_Some:
  assumes "copy_needed a buf n k = Some (a', buf', n')"
  shows "packet_len a' = packet_len a + k \<and> buf' = drop k buf \<and> n' = n - k
         \<and> length (packet a') = length (packet a) \<and> packet_len a' \<le> length (packet a)
         \<and> k \<le> length buf
         \<and> take (packet_len a) (packet a') = take (packet_len a) (packet a)
         \<and> take (packet_len a') (packet a') = take (packet_len a) (packet a) @ take k buf"
  using assms by (auto simp: copy_needed_def memcpy_def split: if_splits)

lemma copy_needed_well_formed:
  assumes "copy_needed a buf n k = Some (a', buf', n')" and "well_formed a"
  shows "well_formed a'"
  using copy_needed_Some [OF assms(1)] assms(2) by (simp add: well_formed_def)

lemma copy_body_well_formed:
  assumes "copy_body a buf n = Some (r, a', buf', n')" and "well_formed a"
  shows "well_formed a'"
  using assms copy_needed_well_formed
  by (fastforce simp: copy_body_def Let_def split: option.splits)

lemma next_packet_well_formed:
  assumes "next_packet a buf n = Some (r, a', buf', n')" and "well_formed a"
  shows "well_formed a'"
proof (cases "packet_len a < 2")
  case False
  then show ?thesis
    using assms copy_body_well_formed by (simp add: next_packet_def)
next
  case True
  then obtain a1 b1 n1 where
    c1: "copy_needed a buf n (min n (2 - packet_len a)) = Some (a1, b1, n1)"
    and rest: "(packet_len a1 < 2 \<and> a' = a1) \<or> copy_body a1 b1 n1 = Some (r, a', buf', n')"
    using assms(1) by (auto simp: next_packet_def Let_def split: option.splits if_splits)
  from copy_needed_well_formed [OF c1 assms(2)] rest copy_body_well_formed
  show ?thesis by blast
qed

text \<open>One pass through the second half of \<open>next_packet\<close>, header already buffered.\<close>

lemma copy_body_step:
  assumes wf: "well_formed a" and two: "2 \<le> packet_len a"
    and le: "packet_len a \<le> expected_length (packet a)" and n: "n \<le> length buf"
  shows "\<exists>a' k. copy_body a buf n
                  = Some (packet_len a' = expected_length (packet a'), a', drop k buf, n - k)
           \<and> k = min n (expected_length (packet a) - packet_len a)
           \<and> packet_len a' = packet_len a + k
           \<and> expected_length (packet a') = expected_length (packet a)
           \<and> well_formed a'
           \<and> take (packet_len a') (packet a') = take (packet_len a) (packet a) @ take k buf"
proof -
  define e where "e = expected_length (packet a)"
  define k where "k = min n (e - packet_len a)"
  have e129: "e \<le> 129" unfolding e_def by (rule expected_length_le129)
  have sub: "size_t_sub e (packet_len a) = e - packet_len a"
    using le e129 unfolding e_def by (intro size_t_sub_no_wrap)
  have fits: "packet_len a + k \<le> length (packet a)"
    using wf le e129 unfolding k_def e_def well_formed_def packet_capacity_def by simp
  have kbuf: "k \<le> length buf"
    using n unfolding k_def by simp
  obtain a' where a': "copy_needed a buf n k = Some (a', drop k buf, n - k)"
    using copy_needed_in_bounds [OF fits kbuf] by blast
  note props = copy_needed_Some [OF a']
  have hdr: "expected_length (packet a') = e"
    unfolding e_def using expected_length_take [OF two, of "packet a'" "packet a"] props by simp
  have "copy_body a buf n = Some (packet_len a' = e, a', drop k buf, n - k)"
    unfolding copy_body_def Let_def e_def [symmetric] sub k_def [symmetric]
    using a' by simp
  then show ?thesis
    using props hdr copy_needed_well_formed [OF a' wf] k_def e_def by auto
qed

text \<open>
  What one call of \<open>next_packet\<close> does from a state whose buffered length does not exceed
  the expected length: it consumes \<open>k\<close> bytes of the input, appends them to the buffered
  bytes, and stops short of the expected length only when the input is used up.
\<close>

lemma next_packet_step:
  assumes wf: "well_formed a" and le: "packet_len a \<le> expected_length (packet a)"
    and n: "n \<le> length buf"
  shows "\<exists>r a' k. next_packet a buf n = Some (r, a', drop k buf, n - k)
           \<and> k \<le> n
           \<and> packet_len a' = packet_len a + k
           \<and> packet_len a' \<le> expected_length (packet a')
           \<and> (r \<longleftrightarrow> packet_len a' = expected_length (packet a'))
           \<and> (r \<or> k = n)
           \<and> well_formed a'
           \<and> take (packet_len a') (packet a') = take (packet_len a) (packet a) @ take k buf"
proof (cases "packet_len a < 2")
  case False
  then have two: "2 \<le> packet_len a" by simp
  from copy_body_step [OF wf two le n] obtain a' k where
    cb: "copy_body a buf n
           = Some (packet_len a' = expected_length (packet a'), a', drop k buf, n - k)"
    and k: "k = min n (expected_length (packet a) - packet_len a)"
    and pl: "packet_len a' = packet_len a + k"
    and e: "expected_length (packet a') = expected_length (packet a)"
    and wf': "well_formed a'"
    and tk: "take (packet_len a') (packet a') = take (packet_len a) (packet a) @ take k buf"
    by blast
  have np: "next_packet a buf n
              = Some (packet_len a' = expected_length (packet a'), a', drop k buf, n - k)"
    using False cb by (simp add: next_packet_def)
  have "k \<le> n" and "packet_len a' \<le> expected_length (packet a')"
    and "packet_len a' = expected_length (packet a') \<or> k = n"
    using k pl e le by auto
  with np pl wf' tk show ?thesis by blast
next
  case True
  define k1 where "k1 = min n (2 - packet_len a)"
  have fits: "packet_len a + k1 \<le> length (packet a)"
    using wf True unfolding k1_def well_formed_def packet_capacity_def by simp
  have k1buf: "k1 \<le> length buf" and k1n: "k1 \<le> n"
    using n unfolding k1_def by simp_all
  obtain a1 where a1: "copy_needed a buf n k1 = Some (a1, drop k1 buf, n - k1)"
    using copy_needed_in_bounds [OF fits k1buf] by blast
  note p1 = copy_needed_Some [OF a1]
  have wf1: "well_formed a1" by (rule copy_needed_well_formed [OF a1 wf])
  show ?thesis
  proof (cases "packet_len a1 < 2")
    case short: True
    have np: "next_packet a buf n = Some (False, a1, drop k1 buf, n - k1)"
      using True a1 short unfolding next_packet_def Let_def k1_def [symmetric] by simp
    have "k1 = n" using short p1 unfolding k1_def by auto
    moreover have "packet_len a1 < expected_length (packet a1)"
      using short expected_length_ge2 [of "packet a1"] by simp
    ultimately show ?thesis using np p1 wf1 by auto
  next
    case full: False
    then have two: "2 \<le> packet_len a1" by simp
    have pl1: "packet_len a1 = 2" using p1 True full unfolding k1_def by auto
    have le1: "packet_len a1 \<le> expected_length (packet a1)"
      using pl1 expected_length_ge2 [of "packet a1"] by simp
    have n1: "n - k1 \<le> length (drop k1 buf)" using n by simp
    from copy_body_step [OF wf1 two le1 n1] obtain a' k2 where
      cb: "copy_body a1 (drop k1 buf) (n - k1)
             = Some (packet_len a' = expected_length (packet a'), a',
                     drop k2 (drop k1 buf), n - k1 - k2)"
      and k2: "k2 = min (n - k1) (expected_length (packet a1) - packet_len a1)"
      and pl: "packet_len a' = packet_len a1 + k2"
      and e: "expected_length (packet a') = expected_length (packet a1)"
      and wf': "well_formed a'"
      and tk: "take (packet_len a') (packet a')
                 = take (packet_len a1) (packet a1) @ take k2 (drop k1 buf)"
      by blast
    have np: "next_packet a buf n
                = Some (packet_len a' = expected_length (packet a'), a',
                        drop (k1 + k2) buf, n - (k1 + k2))"
      using True a1 full cb unfolding next_packet_def Let_def k1_def [symmetric]
      by (simp add: add.commute)
    have "k1 + k2 \<le> n" and "packet_len a' = packet_len a + (k1 + k2)"
      and "packet_len a' \<le> expected_length (packet a')"
      and "packet_len a' = expected_length (packet a') \<or> k1 + k2 = n"
      using k2 pl e le1 k1n p1 by auto
    moreover have "take (packet_len a') (packet a')
                     = take (packet_len a) (packet a) @ take (k1 + k2) buf"
    proof -
      have t1: "take (packet_len a1) (packet a1) = take (packet_len a) (packet a) @ take k1 buf"
        using p1 by blast
      show ?thesis
        using tk unfolding t1 by (simp only: take_add append_assoc)
    qed
    ultimately show ?thesis using np wf' by blast
  qed
qed

lemma next_packet_no_input:
  assumes "well_formed a" and "packet_len a < 2"
  shows "next_packet a buf 0 = Some (False, a, buf, 0)"
proof -
  have "copy_needed a buf 0 0 = Some (a, buf, 0)"
    using assms copy_needed_in_bounds [of a 0 buf 0]
    by (simp add: well_formed_def packet_capacity_def)
  then show ?thesis
    using assms(2) by (simp add: next_packet_def)
qed

lemma next_packet_prefix:
  assumes v: "valid_packet bs" and b: "buffered a bs j"
    and c: "c = take (length c) (drop j bs)" and fit: "j + length c \<le> length bs"
    and open_: "j < length bs"
  shows "\<exists>a'. next_packet a c (length c) = Some (j + length c = length bs, a', [], 0)
           \<and> buffered a' bs (j + length c)"
proof -
  have wf: "well_formed a" and pl: "packet_len a = j" and tk: "take j (packet a) = take j bs"
    using b by (simp_all add: buffered_def)
  have len2: "2 \<le> length bs" using v by (simp add: valid_packet_def)
  have le: "packet_len a \<le> expected_length (packet a)"
  proof (cases "2 \<le> j")
    case True
    then show ?thesis using valid_packet_header [OF v True tk] pl open_ by simp
  next
    case False
    then show ?thesis using expected_length_ge2 [of "packet a"] pl by simp
  qed
  from next_packet_step [OF wf le order_refl, of c] obtain r a' k where
    np: "next_packet a c (length c) = Some (r, a', drop k c, length c - k)"
    and k: "k \<le> length c" and pl': "packet_len a' = j + k"
    and le': "packet_len a' \<le> expected_length (packet a')"
    and r: "r \<longleftrightarrow> packet_len a' = expected_length (packet a')"
    and progress: "r \<or> k = length c" and wf': "well_formed a'"
    and tk': "take (packet_len a') (packet a') = take (packet_len a) (packet a) @ take k c"
    unfolding pl by blast
  have "take k c = take k (drop j bs)"
    using c k by (metis min.absorb1 take_take)
  then have pre: "take (j + k) (packet a') = take (j + k) bs"
    using tk' tk unfolding pl pl' by (simp add: take_add)
  have e: "expected_length (packet a') = length bs" if "2 \<le> j + k"
    using valid_packet_header [OF v that pre] .
  have ex2: "2 \<le> expected_length (packet a')" by (rule expected_length_ge2)
  have kc: "k = length c"
  proof (cases r)
    case False
    then show ?thesis using progress by simp
  next
    case True
    then have "2 \<le> j + k" using r pl' ex2 by simp
    then have "j + k = length bs" using e True r pl' by simp
    then show ?thesis using fit k by simp
  qed
  have "r \<longleftrightarrow> j + length c = length bs"
  proof (cases "2 \<le> j + k")
    case True
    then show ?thesis using e r pl' kc by simp
  next
    case False
    then show ?thesis using r pl' kc ex2 len2 by simp
  qed
  then show ?thesis
    using np kc pre pl' wf' by (simp add: buffered_def)
qed

section \<open>The loop of parse_stream_block\<close>

text \<open>
  The equations that evaluate the assembler on a concrete input.
\<close>

lemmas assembler_eval =
  parse_stream_block_def parse_loop.simps next_packet_def copy_body_def copy_needed_def
  memcpy_def size_t_sub_def SIZE_MAX_def Let_def

lemma parse_stream_block_no_input:
  assumes "well_formed a" and "packet_len a < 2"
  shows "parse_stream_block a buf 0 = Some ([], a)"
  unfolding parse_stream_block_def parse_loop.simps [of a buf 0]
  using next_packet_no_input [OF assms] by simp

text \<open>A chunk that leaves the packet unfinished is buffered and nothing is emitted.\<close>

lemma parse_stream_block_partial:
  assumes v: "valid_packet bs" and b: "buffered a bs j"
    and c: "c = take (length c) (drop j bs)" and fit: "j + length c < length bs"
  shows "\<exists>a'. parse_stream_block a c (length c) = Some ([], a')
           \<and> buffered a' bs (j + length c)"
proof -
  from next_packet_prefix [OF v b c] fit obtain a' where
    "next_packet a c (length c) = Some (False, a', [], 0)" and "buffered a' bs (j + length c)"
    by auto
  then show ?thesis
    unfolding parse_stream_block_def parse_loop.simps [of a c "length c"] by simp
qed

text \<open>The chunk that brings the last byte: the packet is emitted and the length reset.\<close>

lemma parse_stream_block_final:
  assumes v: "valid_packet bs" and b: "buffered a bs j"
    and c: "c = take (length c) (drop j bs)" and fit: "j + length c = length bs"
    and open_: "j < length bs"
  shows "\<exists>a'. parse_stream_block a c (length c) = Some ([(bs, a')], a')
           \<and> well_formed a' \<and> packet_len a' = 0"
proof -
  from next_packet_prefix [OF v b c _ open_] fit obtain a1 where
    np: "next_packet a c (length c) = Some (True, a1, [], 0)"
    and b1: "buffered a1 bs (length bs)"
    by auto
  define s where "s = a1\<lparr>packet_len := 0\<rparr>"
  have wfs: "well_formed s" and pls: "packet_len s = 0"
    using b1 by (simp_all add: s_def buffered_def well_formed_def)
  have pk: "take (packet_len a1) (packet a1) = bs"
    using b1 by (simp add: buffered_def)
  have rest: "parse_loop s [] 0 = Some ([], s)"
    using parse_stream_block_no_input [OF wfs, of "[]"] pls
    by (simp add: parse_stream_block_def)
  have "parse_loop a c (length c) = Some ([(bs, s)], s)"
    unfolding parse_loop.simps [of a c "length c"] np
    using rest pk by (simp add: s_def)
  then show ?thesis
    using wfs pls by (auto simp: parse_stream_block_def)
qed

lemma feed_chunks_empty_chunks:
  assumes "well_formed a" and "packet_len a < 2" and "concat cs = []"
  shows "feed_chunks a cs = Some ([], a)"
  using assms
proof (induction cs)
  case Nil
  then show ?case by simp
next
  case (Cons c cs)
  then have "c = []" and "concat cs = []" by simp_all
  then show ?case
    using Cons parse_stream_block_no_input [of a "[]"] by simp
qed

text \<open>
  Feeding the rest of a valid packet, cut into chunks at any places, to an assembler that
  holds the first \<open>j\<close> bytes of it.
\<close>

lemma feed_chunks_rest:
  assumes "valid_packet bs" and "buffered a bs j" and "concat cs = drop j bs"
    and "j < length bs"
  shows "\<exists>a'. feed_chunks a cs = Some ([(bs, a')], a') \<and> well_formed a' \<and> packet_len a' = 0"
  using assms
proof (induction cs arbitrary: a j)
  case Nil
  then show ?case by simp
next
  case (Cons c cs)
  have split: "c @ concat cs = drop j bs"
    using Cons.prems(3) by simp
  have "take (length c) (drop j bs) = take (length c) (c @ concat cs)"
    using split by simp
  then have c: "c = take (length c) (drop j bs)"
    by simp
  have "drop (length c) (drop j bs) = drop (length c) (c @ concat cs)"
    using split by simp
  then have rest: "concat cs = drop (j + length c) bs"
    by (simp add: add.commute)
  have "length (c @ concat cs) = length bs - j"
    using split by simp
  then have fit: "j + length c \<le> length bs"
    using Cons.prems(4) by simp
  show ?case
  proof (cases "j + length c = length bs")
    case True
    from parse_stream_block_final [OF Cons.prems(1,2) c True Cons.prems(4)] obtain a' where
      p: "parse_stream_block a c (length c) = Some ([(bs, a')], a')"
      and wf: "well_formed a'" and pl: "packet_len a' = 0"
      by blast
    have "concat cs = []" using rest True by simp
    then have "feed_chunks a' cs = Some ([], a')"
      using feed_chunks_empty_chunks [OF wf] pl by simp
    then show ?thesis using p wf pl by simp
  next
    case False
    then have lt: "j + length c < length bs" using fit by simp
    from parse_stream_block_partial [OF Cons.prems(1,2) c lt] obtain a1 where
      p: "parse_stream_block a c (length c) = Some ([], a1)"
      and b1: "buffered a1 bs (j + length c)"
      by blast
    from Cons.IH [OF Cons.prems(1) b1 rest lt] obtain a' where
      "feed_chunks a1 cs = Some ([(bs, a')], a')" and "well_formed a'" and "packet_len a' = 0"
      by blast
    then show ?thesis using p by simp
  qed
qed

lemma awaiting_le:
  assumes "awaiting a"
  shows "well_formed a \<and> packet_len a \<le> expected_length (packet a)"
  using assms expected_length_ge2 [of "packet a"] by (auto simp: awaiting_def)

text \<open>
  From a state the program can be in, the loop of \<open>parse_stream_block\<close> runs to its end
  without a copy outside the arrays, and leaves such a state behind.
\<close>

lemma parse_loop_awaiting:
  assumes "awaiting a" and "n \<le> length buf"
  shows "\<exists>evs a'. parse_loop a buf n = Some (evs, a') \<and> awaiting a'"
  using assms
proof (induction a buf n rule: parse_loop.induct)
  case (1 a buf n)
  from awaiting_le [OF "1.prems"(1)] have wf: "well_formed a"
    and le: "packet_len a \<le> expected_length (packet a)" by simp_all
  from next_packet_step [OF wf le "1.prems"(2)] obtain r a1 k where
    np: "next_packet a buf n = Some (r, a1, drop k buf, n - k)"
    and le1: "packet_len a1 \<le> expected_length (packet a1)"
    and r: "r \<longleftrightarrow> packet_len a1 = expected_length (packet a1)"
    and wf1: "well_formed a1"
    by blast
  show ?case
  proof (cases r)
    case False
    then have "awaiting a1" using le1 r wf1 by (simp add: awaiting_def)
    then show ?thesis
      unfolding parse_loop.simps [of a buf n] np using False by simp
  next
    case True
    have aw: "awaiting (a1\<lparr>packet_len := 0\<rparr>)"
      using wf1 by (simp add: awaiting_def well_formed_def)
    have "n - k \<le> length (drop k buf)" using "1.prems"(2) by simp
    from "1.IH" [OF np refl refl refl True aw this] obtain evs a' where
      "parse_loop (a1\<lparr>packet_len := 0\<rparr>) (drop k buf) (n - k) = Some (evs, a')"
      and "awaiting a'" by blast
    then show ?thesis
      unfolding parse_loop.simps [of a buf n] np using True by simp
  qed
qed

lemma feed_chunks_awaiting:
  assumes "awaiting a"
  shows "\<exists>evs a'. feed_chunks a chunks = Some (evs, a') \<and> awaiting a'"
  using assms
proof (induction chunks arbitrary: a)
  case Nil
  then show ?case by simp
next
  case (Cons c cs)
  from parse_loop_awaiting [OF Cons.prems order_refl, of c] obtain evs a1 where
    p: "parse_stream_block a c (length c) = Some (evs, a1)" and aw: "awaiting a1"
    unfolding parse_stream_block_def by blast
  from Cons.IH [OF aw] obtain evs' a' where
    "feed_chunks a1 cs = Some (evs', a')" and "awaiting a'" by blast
  then show ?case using p by simp
qed

lemma awaiting_initial: "awaiting initial_assembler"
  by (simp add: awaiting_def well_formed_def initial_assembler_def packet_capacity_def)

text \<open>Every pass through the loop body leaves a well-formed state with length 0.\<close>

lemma parse_loop_events:
  assumes "parse_loop a buf n = Some (evs, a')" and "well_formed a" and "(p, s) \<in> set evs"
  shows "packet_len s = 0 \<and> well_formed s"
  using assms
proof (induction a buf n arbitrary: evs rule: parse_loop.induct)
  case (1 a buf n)
  from "1.prems"(1) obtain r a1 b1 n1 where
    np: "next_packet a buf n = Some (r, a1, b1, n1)"
    unfolding parse_loop.simps [of a buf n] by (auto split: option.splits)
  have wf1: "well_formed a1"
    by (rule next_packet_well_formed [OF np "1.prems"(2)])
  show ?case
  proof (cases r)
    case False
    then have "evs = []"
      using "1.prems"(1) unfolding parse_loop.simps [of a buf n] np by simp
    then show ?thesis using "1.prems"(3) by simp
  next
    case True
    define s1 where "s1 = a1\<lparr>packet_len := 0\<rparr>"
    have wfs: "well_formed s1" and pls: "packet_len s1 = 0"
      using wf1 by (simp_all add: s1_def well_formed_def)
    from "1.prems"(1) True obtain evs1 where
      rec: "parse_loop s1 b1 n1 = Some (evs1, a')"
      and evs: "evs = (take (packet_len a1) (packet a1), s1) # evs1"
      unfolding parse_loop.simps [of a buf n] np s1_def by auto
    show ?thesis
    proof (cases "(p, s) \<in> set evs1")
      case True
      from "1.IH" [OF np refl refl refl \<open>r\<close> rec [unfolded s1_def] wfs [unfolded s1_def] True]
      show ?thesis .
    next
      case False
      then have "s = s1" using "1.prems"(3) evs by simp
      then show ?thesis using wfs pls by simp
    qed
  qed
qed

section \<open>Calls of read_stream\<close>

lemma written_append: "written (xs @ ys) = written xs @ written ys"
  by (induction xs rule: written.induct) simp_all

lemma idle_call:
  assumes "idle os" and "timer r = int t" and "t \<le> 10"
  shows "read_stream r os =
           (if t < 10 then Some (1, r\<lparr>timer := int (t + 1)\<rparr>, [Poll])
            else Some (1, r\<lparr>timer := 0\<rparr>, [Poll, Write [0x10]]))"
  using assms by (simp add: read_stream_def idle_def INT_MAX_def)

lemma idle_calls:
  assumes "\<forall>os \<in> set oss. idle os" and "timer r = int t" and "t \<le> 10"
  shows "\<exists>tr r'. poll_calls r oss = Some (tr, r')
           \<and> written tr = replicate ((t + length oss) div 11) 0x10
           \<and> timer r' = int ((t + length oss) mod 11)
           \<and> assembly r' = assembly r"
  using assms
proof (induction oss arbitrary: r t)
  case Nil
  then show ?case by simp
next
  case (Cons os oss)
  have i: "idle os" and rest: "\<forall>os \<in> set oss. idle os"
    using Cons.prems(1) by simp_all
  show ?case
  proof (cases "t < 10")
    case True
    define r1 where "r1 = r\<lparr>timer := int (t + 1)\<rparr>"
    have call: "read_stream r os = Some (1, r1, [Poll])"
      using idle_call [OF i Cons.prems(2,3)] True by (simp add: r1_def)
    have t1: "timer r1 = int (t + 1)" and le: "t + 1 \<le> 10"
      using True by (simp_all add: r1_def)
    from Cons.IH [OF rest t1 le] obtain tr r' where
      "poll_calls r1 oss = Some (tr, r')"
      and "written tr = replicate ((t + 1 + length oss) div 11) 0x10"
      and "timer r' = int ((t + 1 + length oss) mod 11)"
      and "assembly r' = assembly r1"
      by blast
    then show ?thesis
      using call by (simp add: r1_def)
  next
    case False
    then have t10: "t = 10" using Cons.prems(3) by simp
    define r1 where "r1 = r\<lparr>timer := 0\<rparr>"
    have call: "read_stream r os = Some (1, r1, [Poll, Write [0x10]])"
      using idle_call [OF i Cons.prems(2,3)] False by (simp add: r1_def)
    have t1: "timer r1 = int 0" and le: "(0 :: nat) \<le> 10"
      by (simp_all add: r1_def)
    from Cons.IH [OF rest t1 le] obtain tr r' where
      "poll_calls r1 oss = Some (tr, r')"
      and "written tr = replicate ((0 + length oss) div 11) 0x10"
      and "timer r' = int ((0 + length oss) mod 11)"
      and "assembly r' = assembly r1"
      by blast
    moreover have "(t + length (os # oss)) div 11 = Suc (length oss div 11)"
      and "(t + length (os # oss)) mod 11 = length oss mod 11"
      using t10 by simp_all
    ultimately show ?thesis
      using call by (simp add: r1_def)
  qed
qed

lemma data_call:
  assumes d: "data_arrives os" and aw: "awaiting (assembly r)"
  shows "\<exists>a'. read_stream r os
                = Some (read_ret os, r\<lparr>timer := 0, assembly := a'\<rparr>, [Poll, Read 512])"
proof -
  have n: "nat (read_ret os) \<le> length (read_buf os)"
    using d by (simp add: data_arrives_def)
  from parse_loop_awaiting [OF aw n] obtain evs a' where
    "parse_stream_block (assembly r) (read_buf os) (nat (read_ret os)) = Some (evs, a')"
    unfolding parse_stream_block_def by blast
  then have "read_stream r os
               = Some (read_ret os, r\<lparr>timer := 0, assembly := a'\<rparr>, [Poll, Read 512])"
    using d by (simp add: read_stream_def data_arrives_def)
  then show ?thesis by blast
qed

lemma idle_quiet: "idle quiet"
  by (simp add: idle_def quiet_def)

text \<open>
  A call that returns a positive result does not close the socket; a call that returns 0
  or less closes it once, as its last system call.
\<close>

lemma read_stream_close:
  assumes "read_stream r os = Some (ret, r', tr)"
  shows "(0 < ret \<and> Close \<notin> set tr)
         \<or> (ret \<le> 0 \<and> tr \<noteq> [] \<and> last tr = Close \<and> Close \<notin> set (butlast tr))"
  using assms by (auto simp: read_stream_def split: if_splits option.splits)

lemma hang_up_call:
  assumes "hang_up os"
  shows "read_stream r os = Some (0, r, [Poll, Close])"
  using assms by (simp add: read_stream_def hang_up_def)

lemma zero_read_call:
  assumes "zero_read os"
  shows "read_stream r os = Some (0, r, [Poll, Read 512, Close])"
  using assms by (simp add: read_stream_def zero_read_def)

lemma count_list_closing:
  assumes "tr \<noteq> []" and "last tr = Close" and "Close \<notin> set (butlast tr)"
  shows "count_list tr Close = 1"
proof -
  have "tr = butlast tr @ [Close]"
    using assms(1,2) by (metis append_butlast_last_id)
  then have "count_list tr Close = count_list (butlast tr @ [Close]) Close"
    by simp
  also have "\<dots> = 1"
    using assms(3) by (simp add: count_list_0_iff)
  finally show ?thesis .
qed

text \<open>
  While every result is positive the socket is open, and the connection goes on with the
  next reply.
\<close>

lemma connection_open:
  assumes "connection r oss = Some (rets, tr, r')" and "\<forall>x \<in> set rets. 0 < x"
    and "read_stream r' os = Some (0, r', t)"
  shows "Close \<notin> set tr \<and> connection r (oss @ os # later) = Some (rets @ [0], tr @ t, r')"
  using assms
proof (induction oss arbitrary: r rets tr)
  case Nil
  then show ?case by simp
next
  case (Cons o1 oss)
  from Cons.prems(1) obtain ret1 r1 t1 where
    c1: "read_stream r o1 = Some (ret1, r1, t1)"
    by (auto split: option.splits)
  have pos: "0 < ret1"
  proof (rule ccontr)
    assume "\<not> 0 < ret1"
    then have "rets = [ret1]" using Cons.prems(1) c1 by simp
    then show False using Cons.prems(2) \<open>\<not> 0 < ret1\<close> by simp
  qed
  then obtain rets1 tr1 where
    rest: "connection r1 oss = Some (rets1, tr1, r')"
    and rets: "rets = ret1 # rets1" and tr: "tr = t1 @ tr1"
    using Cons.prems(1) c1 by auto
  have all1: "\<forall>x \<in> set rets1. 0 < x"
    using Cons.prems(2) rets by simp
  from Cons.IH [OF rest all1 Cons.prems(3)] have
    ih: "Close \<notin> set tr1"
      "connection r1 (oss @ os # later) = Some (rets1 @ [0], tr1 @ t, r')"
    by simp_all
  have "Close \<notin> set t1"
    using read_stream_close [OF c1] pos by auto
  then show ?case
    using ih c1 pos rets tr by simp
qed

text \<open>
  Over a whole connection the socket is closed at most once, by the last system call made,
  and exactly when a call returns 0 or less, which at most one call does.
\<close>

lemma connection_closes_once:
  assumes "connection r oss = Some (rets, tr, r')"
  shows "count_list tr Close \<le> 1 \<and> (Close \<in> set tr \<longrightarrow> last tr = Close)
         \<and> length (filter (\<lambda>x. x \<le> 0) rets) \<le> 1
         \<and> (Close \<in> set tr \<longleftrightarrow> (\<exists>x \<in> set rets. x \<le> 0))"
  using assms
proof (induction oss arbitrary: r rets tr)
  case Nil
  then show ?case by simp
next
  case (Cons o1 oss)
  from Cons.prems obtain ret1 r1 t1 where
    c1: "read_stream r o1 = Some (ret1, r1, t1)"
    by (auto split: option.splits)
  note call = read_stream_close [OF c1]
  show ?case
  proof (cases "ret1 \<le> 0")
    case True
    then have eq: "rets = [ret1]" "tr = t1"
      using Cons.prems c1 by simp_all
    have cl: "t1 \<noteq> []" "last t1 = Close" "Close \<notin> set (butlast t1)"
      using call True by auto
    have "Close \<in> set t1"
      using cl(1,2) by (metis last_in_set)
    then show ?thesis
      using eq True cl count_list_closing [OF cl] by simp
  next
    case False
    then obtain rets1 tr1 where
      rest: "connection r1 oss = Some (rets1, tr1, r')"
      and rets: "rets = ret1 # rets1" and tr: "tr = t1 @ tr1"
      using Cons.prems c1 by auto
    have no: "Close \<notin> set t1"
      using call False by auto
    then have c0: "count_list t1 Close = 0"
      by (simp add: count_list_0_iff)
    note ih = Cons.IH [OF rest]
    have "last (t1 @ tr1) = last tr1" if "Close \<in> set tr1"
      using that by (cases tr1) auto
    then show ?thesis
      using ih no c0 False rets tr by auto
  qed
qed

section \<open>The frame assembler\<close>

text \<open>
  C1, split-invariance.  Take a valid packet \<open>bs\<close>, two header bytes followed by exactly
  the data bytes its length class asks for, and any partition of it into one or more
  non-empty chunks.  Feeding the chunks in order, one call of \<open>parse_stream_block\<close> each,
  to an assembler with no bytes buffered emits exactly one completed packet, equal to
  \<open>bs\<close>, wherever the chunk boundaries fall; afterwards no byte is buffered.
\<close>

theorem split_invariance:
  assumes "valid_packet bs" and "well_formed a" and "packet_len a = 0"
    and "concat chunks = bs" and "chunks \<noteq> []" and "\<forall>c \<in> set chunks. c \<noteq> []"
  shows "\<exists>evs a'. feed_chunks a chunks = Some (evs, a') \<and> map fst evs = [bs]
           \<and> packet_len a' = 0"
proof -
  have b: "buffered a bs 0"
    using assms(2,3) by (simp add: buffered_def)
  have pos: "0 < length bs"
    using assms(1) by (simp add: valid_packet_def)
  from feed_chunks_rest [OF assms(1) b _ pos] assms(4) obtain a' where
    "feed_chunks a chunks = Some ([(bs, a')], a')" and "packet_len a' = 0"
    by auto
  then show ?thesis by simp
qed

text \<open>
  The packet \<open>[0x20, 0x10, 0xAB]\<close> fed one byte per chunk to the initial assembler.
\<close>

theorem split_invariance_witness:
  "valid_packet [0x20, 0x10, 0xAB] \<and> well_formed initial_assembler
   \<and> packet_len initial_assembler = 0
   \<and> concat [[0x20], [0x10], [0xAB]] = [0x20, 0x10, 0xAB :: byte]
   \<and> [[0x20], [0x10], [0xAB :: byte]] \<noteq> []
   \<and> [0x20 :: byte] \<noteq> [] \<and> [0x10 :: byte] \<noteq> [] \<and> [0xAB :: byte] \<noteq> []
   \<and> (\<exists>evs a'. feed_chunks initial_assembler [[0x20], [0x10], [0xAB]] = Some (evs, a')
          \<and> map fst evs = [[0x20, 0x10, 0xAB]] \<and> packet_len a' = 0)"
proof -
  have v: "valid_packet [0x20, 0x10, 0xAB]"
    by (simp add: valid_packet_def expected_length_0x20_0x10)
  have wf: "well_formed initial_assembler"
    by (simp add: well_formed_def initial_assembler_def packet_capacity_def)
  have pl: "packet_len initial_assembler = 0"
    by (simp add: initial_assembler_def)
  have cc: "concat [[0x20], [0x10], [0xAB]] = [0x20, 0x10, 0xAB :: byte]"
    by simp
  have ne: "[[0x20], [0x10], [0xAB :: byte]] \<noteq> []"
    by simp
  have nes: "\<forall>c \<in> set [[0x20], [0x10], [0xAB :: byte]]. c \<noteq> []"
    by simp
  from split_invariance [OF v wf pl cc ne nes] v wf pl cc ne show ?thesis
    by simp
qed

text \<open>
  C2, the bound of the buffer.  For every pair of header bytes the expected length that
  \<open>next_packet\<close> computes is at least 2 and at most 129, the capacity of \<open>packet\<close>.
  Hence a call of \<open>next_packet\<close> from a state whose buffered length does not exceed the
  expected length copies inside the 129 bytes only (the model returns \<open>None\<close> for a copy
  outside them), and no sequence of chunks fed to the initial assembler ever makes a copy
  outside them.
\<close>

theorem expected_length_within_buffer:
  "2 \<le> expected_length (b0 # b1 # rest) \<and> expected_length (b0 # b1 # rest) \<le> packet_capacity
   \<and> (\<forall>a buf buf_len.
         well_formed a \<and> packet_len a \<le> expected_length (packet a) \<and> buf_len \<le> length buf \<longrightarrow>
         (\<exists>r a' buf' buf_len'.
            next_packet a buf buf_len = Some (r, a', buf', buf_len')
            \<and> packet_len a' \<le> packet_capacity \<and> length (packet a') = packet_capacity))
   \<and> (\<forall>chunks. \<exists>evs a'.
         feed_chunks initial_assembler chunks = Some (evs, a')
         \<and> packet_len a' \<le> packet_capacity \<and> length (packet a') = packet_capacity)"
proof (intro conjI allI impI)
  show "2 \<le> expected_length (b0 # b1 # rest)"
    by (rule expected_length_ge2)
  show "expected_length (b0 # b1 # rest) \<le> packet_capacity"
    unfolding packet_capacity_def by (rule expected_length_le129)
next
  fix a :: assembler and buf :: "byte list" and buf_len :: nat
  assume h: "well_formed a \<and> packet_len a \<le> expected_length (packet a) \<and> buf_len \<le> length buf"
  then have wf: "well_formed a" and le: "packet_len a \<le> expected_length (packet a)"
    and n: "buf_len \<le> length buf" by simp_all
  from next_packet_step [OF wf le n] obtain r a' k where
    np: "next_packet a buf buf_len = Some (r, a', drop k buf, buf_len - k)"
    and le': "packet_len a' \<le> expected_length (packet a')" and wf': "well_formed a'"
    by blast
  have "packet_len a' \<le> packet_capacity"
    using le' expected_length_le129 [of "packet a'"] by (simp add: packet_capacity_def)
  then show "\<exists>r a' buf' buf_len'.
            next_packet a buf buf_len = Some (r, a', buf', buf_len')
            \<and> packet_len a' \<le> packet_capacity \<and> length (packet a') = packet_capacity"
    using np wf' by (auto simp: well_formed_def)
next
  fix chunks
  from feed_chunks_awaiting [OF awaiting_initial, of chunks] obtain evs a' where
    f: "feed_chunks initial_assembler chunks = Some (evs, a')" and aw: "awaiting a'"
    by blast
  from awaiting_le [OF aw] have "packet_len a' \<le> packet_capacity"
    using expected_length_le129 [of "packet a'"] by (simp add: packet_capacity_def)
  then show "\<exists>evs a'. feed_chunks initial_assembler chunks = Some (evs, a')
         \<and> packet_len a' \<le> packet_capacity \<and> length (packet a') = packet_capacity"
    using f aw by (auto simp: awaiting_def well_formed_def)
qed

text \<open>
  The header \<open>[0xE1, 0xFF]\<close> has the largest expected length, 129.
\<close>

theorem expected_length_within_buffer_witness:
  "expected_length [0xE1, 0xFF] = 129 \<and> packet_capacity = 129
   \<and> well_formed initial_assembler
   \<and> packet_len initial_assembler \<le> expected_length (packet initial_assembler)
   \<and> (2 :: nat) \<le> length [0xE1, 0xFF :: byte]
   \<and> (\<exists>r a' buf' buf_len'.
          next_packet initial_assembler [0xE1, 0xFF] 2 = Some (r, a', buf', buf_len')
          \<and> packet_len a' \<le> packet_capacity \<and> length (packet a') = packet_capacity)"
proof -
  have wf: "well_formed initial_assembler"
    by (simp add: well_formed_def initial_assembler_def packet_capacity_def)
  have le: "packet_len initial_assembler \<le> expected_length (packet initial_assembler)"
    by (simp add: initial_assembler_def)
  have n: "(2 :: nat) \<le> length [0xE1, 0xFF :: byte]"
    by simp
  from expected_length_within_buffer [of "0xE1" "0xFF" "[]"] wf le n
  show ?thesis
    by (simp add: expected_length_0xE1_0xFF packet_capacity_def)
qed

text \<open>
  C4, as the code has it.  For a car packet (car field non-zero) of the short class (type
  neither 0 nor 15) whose second header byte carries the null marker
  (\<open>(byte1 & 0xf0) == 0xf0\<close>), the expected length is 2, the header alone: the macro
  \<open>SHORT_PACKET_LEN\<close> adds the two header bytes to a data length of 0.
\<close>

theorem short_null_marker_length:
  assumes "PACKET_CAR p \<noteq> 0"
    and "PACKET_TYPE p \<noteq> 0" and "PACKET_TYPE p \<noteq> 15"
    and "uint (p ! 1) AND 0xf0 = 0xf0"
  shows "expected_length p = 2"
  using assms by (simp add: expected_length_def SHORT_PACKET_LEN_def SHORT_PACKET_NUL_def)

theorem short_null_marker_length_witness:
  "PACKET_CAR [0x21, 0xF0] \<noteq> 0 \<and> PACKET_TYPE [0x21, 0xF0] \<noteq> 0
   \<and> PACKET_TYPE [0x21, 0xF0] \<noteq> 15
   \<and> uint ([0x21, 0xF0 :: byte] ! 1) AND 0xf0 = 0xf0 \<and> expected_length [0x21, 0xF0] = 2"
proof -
  have c: "PACKET_CAR [0x21, 0xF0] \<noteq> 0" by (simp add: PACKET_CAR_def)
  have t0: "PACKET_TYPE [0x21, 0xF0] \<noteq> 0" and t15: "PACKET_TYPE [0x21, 0xF0] \<noteq> 15"
    by (simp_all add: PACKET_TYPE_def)
  have n: "uint ([0x21, 0xF0 :: byte] ! 1) AND 0xf0 = 0xf0" by simp
  from short_null_marker_length [OF c t0 t15 n] c t0 t15 n show ?thesis by blast
qed

text \<open>
  An expected length of 0 for the null marker, as the table of the specification has it,
  is not what the code computes: the header \<open>[0x21, 0xF0]\<close> is a car packet (car 1) of
  type 1 with the null marker, and its expected length is not 0.
\<close>

theorem short_null_marker_counterexample:
  "PACKET_CAR [0x21, 0xF0] \<noteq> 0 \<and> PACKET_TYPE [0x21, 0xF0] \<noteq> 0
   \<and> PACKET_TYPE [0x21, 0xF0] \<noteq> 15
   \<and> uint ([0x21, 0xF0 :: byte] ! 1) AND 0xf0 = 0xf0 \<and> expected_length [0x21, 0xF0] \<noteq> 0"
  by (simp add: expected_length_def PACKET_CAR_def PACKET_TYPE_def SHORT_PACKET_LEN_def
      SHORT_PACKET_NUL_def)

text \<open>
  C5, the reset.  Whatever input a call of \<open>parse_stream_block\<close> is given, the state
  right after each completed packet is emitted has \<open>packet_len = 0\<close>, that is, it awaits
  a header with no byte buffered; and any valid packet fed next is assembled and emitted
  as it is, whatever the buffer still holds of the previous one.
\<close>

theorem reset_after_emission:
  assumes "well_formed a" and "parse_stream_block a buf buf_len = Some (evs, a')"
    and "(p, s) \<in> set evs"
  shows "packet_len s = 0 \<and> well_formed s
         \<and> (\<forall>bs. valid_packet bs \<longrightarrow>
               (\<exists>s'. parse_stream_block s bs (length bs) = Some ([(bs, s')], s')
                     \<and> packet_len s' = 0))"
proof -
  have ev: "packet_len s = 0 \<and> well_formed s"
    using parse_loop_events [OF assms(2) [unfolded parse_stream_block_def] assms(1,3)] .
  have "\<exists>s'. parse_stream_block s bs (length bs) = Some ([(bs, s')], s') \<and> packet_len s' = 0"
    if v: "valid_packet bs" for bs
  proof -
    have b: "buffered s bs 0" using ev by (simp add: buffered_def)
    have pos: "0 < length bs" using v by (simp add: valid_packet_def)
    from parse_stream_block_final [OF v b _ _ pos] show ?thesis by auto
  qed
  with ev show ?thesis by blast
qed

text \<open>
  After \<open>[0x20, 0x10, 0xAB]\<close> is emitted its bytes are still in the buffer; the
  packet \<open>[0x05, 0x00]\<close> fed next is emitted unchanged.
\<close>

theorem reset_after_emission_witness:
  "well_formed initial_assembler
   \<and> parse_stream_block initial_assembler [0x20, 0x10, 0xAB] 3
       = Some ([([0x20, 0x10, 0xAB], \<lparr>packet = [0x20, 0x10, 0xAB] @ replicate 126 0, packet_len = 0\<rparr>)],
               \<lparr>packet = [0x20, 0x10, 0xAB] @ replicate 126 0, packet_len = 0\<rparr>)
   \<and> packet_len \<lparr>packet = [0x20, 0x10, 0xAB] @ replicate 126 0, packet_len = 0\<rparr> = 0
   \<and> valid_packet [0x05, 0x00]
   \<and> (\<exists>s'. parse_stream_block \<lparr>packet = [0x20, 0x10, 0xAB] @ replicate 126 0, packet_len = 0\<rparr>
               [0x05, 0x00] (length [0x05, 0x00 :: byte])
             = Some ([([0x05, 0x00], s')], s') \<and> packet_len s' = 0)"
proof -
  define s where "s = \<lparr>packet = [0x20, 0x10, 0xAB :: byte] @ replicate 126 0, packet_len = 0\<rparr>"
  have wf: "well_formed initial_assembler"
    by (simp add: well_formed_def initial_assembler_def packet_capacity_def)
  have run: "parse_stream_block initial_assembler [0x20, 0x10, 0xAB] 3
               = Some ([([0x20, 0x10, 0xAB], s)], s)"
    unfolding s_def
    by (simp add: assembler_eval initial_assembler_def expected_length_0x20_0x10)
  have mem: "([0x20, 0x10, 0xAB], s) \<in> set [([0x20, 0x10, 0xAB], s)]"
    by simp
  have v: "valid_packet [0x05, 0x00]"
    by (simp add: valid_packet_def expected_length_0x05_0x00)
  from reset_after_emission [OF wf run mem] v wf run show ?thesis
    unfolding s_def by blast
qed

text \<open>
  C6, the example of the classification.  The header \<open>[0x20, 0x10]\<close> has expected
  length 3.  Feeding \<open>[0x20, 0x10, 0xAB]\<close> to the initial assembler as one chunk, or as
  \<open>[0x20]\<close> followed by \<open>[0x10, 0xAB]\<close>, emits in both cases exactly one completed
  packet, \<open>[0x20, 0x10, 0xAB]\<close>, whose single payload byte after the header is
  \<open>0xAB\<close>.
\<close>

theorem classification_example:
  "expected_length [0x20, 0x10] = 3
   \<and> parse_stream_block initial_assembler [0x20, 0x10, 0xAB] 3
       = Some ([([0x20, 0x10, 0xAB], \<lparr>packet = [0x20, 0x10, 0xAB] @ replicate 126 0, packet_len = 0\<rparr>)],
               \<lparr>packet = [0x20, 0x10, 0xAB] @ replicate 126 0, packet_len = 0\<rparr>)
   \<and> feed_chunks initial_assembler [[0x20], [0x10, 0xAB]]
       = Some ([([0x20, 0x10, 0xAB], \<lparr>packet = [0x20, 0x10, 0xAB] @ replicate 126 0, packet_len = 0\<rparr>)],
               \<lparr>packet = [0x20, 0x10, 0xAB] @ replicate 126 0, packet_len = 0\<rparr>)
   \<and> drop 2 [0x20, 0x10, 0xAB :: byte] = [0xAB]"
proof -
  have one: "parse_stream_block initial_assembler [0x20, 0x10, 0xAB] 3
       = Some ([([0x20, 0x10, 0xAB], \<lparr>packet = [0x20, 0x10, 0xAB] @ replicate 126 0, packet_len = 0\<rparr>)],
               \<lparr>packet = [0x20, 0x10, 0xAB] @ replicate 126 0, packet_len = 0\<rparr>)"
    by (simp add: assembler_eval initial_assembler_def expected_length_0x20_0x10)
  have two: "feed_chunks initial_assembler [[0x20], [0x10, 0xAB]]
       = Some ([([0x20, 0x10, 0xAB], \<lparr>packet = [0x20, 0x10, 0xAB] @ replicate 126 0, packet_len = 0\<rparr>)],
               \<lparr>packet = [0x20, 0x10, 0xAB] @ replicate 126 0, packet_len = 0\<rparr>)"
    by (simp add: assembler_eval initial_assembler_def expected_length_0x20_0x10)
  show ?thesis using one two expected_length_0x20_0x10 [of "[]"] by simp
qed

text \<open>
  C7.  For a system packet (car field 0) the type code \<open>SYS_STRANGE_A\<close> (7) has a fixed
  expected length of 4 whatever the second header byte holds.  Every other type code takes
  one of the three formulas: special (2) for the codes 3, 5 and 8, short for 1, 2, 9
  and 11, and the long formula \<open>(byte1 >> 1) + 2\<close> for all the rest, the codes the switch
  does not name included.
\<close>

theorem system_packet_classes:
  assumes "PACKET_CAR p = 0"
  shows "(PACKET_TYPE p = SYS_STRANGE_A \<longrightarrow> expected_length p = 4)
     \<and> (PACKET_TYPE p \<in> {3, 5, 8} \<longrightarrow> expected_length p = 2)
     \<and> (PACKET_TYPE p \<in> {1, 2, 9, 11} \<longrightarrow>
          expected_length p
            = nat ((if uint (p ! 1) AND 0xf0 = 0xf0 then 0 else drop_bit 4 (uint (p ! 1))) + 2))
     \<and> (PACKET_TYPE p \<notin> {1, 2, 3, 5, 7, 8, 9, 11} \<longrightarrow>
          expected_length p = nat (drop_bit 1 (uint (p ! 1)) + 2))"
  using assms
  by (simp add: expected_length_def SPECIAL_PACKET_LEN_def LONG_PACKET_LEN_def
      SPECIAL_PACKET_DATA_def SHORT_PACKET_LEN_def SHORT_PACKET_NUL_def)

theorem system_packet_classes_witness:
  "PACKET_CAR [0xE0, 0x06] = 0 \<and> PACKET_TYPE [0xE0, 0x06] = SYS_STRANGE_A
     \<and> expected_length [0xE0, 0x06] = 4
   \<and> PACKET_CAR [0x60, 0x00] = 0 \<and> PACKET_TYPE [0x60, 0x00] \<in> {3, 5, 8}
     \<and> expected_length [0x60, 0x00] = 2
   \<and> PACKET_CAR [0x20, 0x10] = 0 \<and> PACKET_TYPE [0x20, 0x10] \<in> {1, 2, 9, 11}
     \<and> expected_length [0x20, 0x10] = 3
   \<and> PACKET_CAR [0x80, 0x0A] = 0 \<and> PACKET_TYPE [0x80, 0x0A] \<notin> {1, 2, 3, 5, 7, 8, 9, 11}
     \<and> expected_length [0x80, 0x0A] = 7"
proof -
  have c: "PACKET_CAR [0xE0, 0x06] = 0" "PACKET_CAR [0x60, 0x00] = 0"
    "PACKET_CAR [0x20, 0x10] = 0" "PACKET_CAR [0x80, 0x0A] = 0"
    by (simp_all add: PACKET_CAR_def)
  have t: "PACKET_TYPE [0xE0, 0x06] = 7" "PACKET_TYPE [0x60, 0x00] = 3"
    "PACKET_TYPE [0x20, 0x10] = 1" "PACKET_TYPE [0x80, 0x0A] = 4"
    by (simp_all add: PACKET_TYPE_def)
  show ?thesis
    using system_packet_classes [OF c(1)] system_packet_classes [OF c(2)]
      system_packet_classes [OF c(3)] system_packet_classes [OF c(4)] c t
    by simp
qed

text \<open>
  C9.  For every pair of header bytes the car index that \<open>PACKET_CAR\<close> extracts
  (\<open>byte0 & 0x1f\<close>) lies between 0 and 31, so no header decodes to a car index from 32 up
  to \<open>MAX_CAR_NUMBER\<close> (99).
\<close>

theorem car_index_range:
  "0 \<le> PACKET_CAR (b0 # b1 # rest) \<and> PACKET_CAR (b0 # b1 # rest) \<le> 31
   \<and> PACKET_CAR (b0 # b1 # rest) \<notin> {32 .. MAX_CAR_NUMBER}"
  using PACKET_CAR_bounds [of "b0 # b1 # rest"] by simp

text \<open>
  C10, conservation of bytes.  For a call of \<open>next_packet\<close> in which the buffered length
  does not exceed the expected length on entry: \<open>*packet_len\<close> grows by exactly what
  \<open>*buf_len\<close> shrinks by, \<open>*buf\<close> advances by that amount, \<open>*packet_len\<close> does not
  exceed the expected length on exit, and the call returns 1 exactly when \<open>*packet_len\<close>
  equals the expected length.  Bytes of a following packet stay in the input.
\<close>

theorem next_packet_conservation:
  assumes "well_formed a" and "packet_len a \<le> expected_length (packet a)"
    and "buf_len \<le> length buf"
  shows "\<exists>r a' buf' buf_len'.
           next_packet a buf buf_len = Some (r, a', buf', buf_len')
           \<and> buf_len' \<le> buf_len \<and> packet_len a \<le> packet_len a'
           \<and> packet_len a' - packet_len a = buf_len - buf_len'
           \<and> buf' = drop (buf_len - buf_len') buf
           \<and> packet_len a' \<le> expected_length (packet a')
           \<and> (r \<longleftrightarrow> packet_len a' = expected_length (packet a'))"
proof -
  from next_packet_step [OF assms] obtain r a' k where
    np: "next_packet a buf buf_len = Some (r, a', drop k buf, buf_len - k)"
    and k: "k \<le> buf_len" and pl: "packet_len a' = packet_len a + k"
    and le: "packet_len a' \<le> expected_length (packet a')"
    and r: "r \<longleftrightarrow> packet_len a' = expected_length (packet a')"
    by blast
  have "buf_len - (buf_len - k) = k" using k by simp
  then show ?thesis
    using np k pl le r by simp
qed

text \<open>
  A three-byte packet followed by the first byte of the next one: three bytes are
  consumed and the fourth is left in the input.
\<close>

theorem next_packet_conservation_witness:
  "well_formed initial_assembler
   \<and> packet_len initial_assembler \<le> expected_length (packet initial_assembler)
   \<and> (4 :: nat) \<le> length [0x20, 0x10, 0xAB, 0x05 :: byte]
   \<and> (\<exists>r a' buf' buf_len'.
           next_packet initial_assembler [0x20, 0x10, 0xAB, 0x05] 4 = Some (r, a', buf', buf_len')
           \<and> buf_len' \<le> 4 \<and> packet_len initial_assembler \<le> packet_len a'
           \<and> packet_len a' - packet_len initial_assembler = 4 - buf_len'
           \<and> buf' = drop (4 - buf_len') [0x20, 0x10, 0xAB, 0x05]
           \<and> packet_len a' \<le> expected_length (packet a')
           \<and> (r \<longleftrightarrow> packet_len a' = expected_length (packet a')))
   \<and> next_packet initial_assembler [0x20, 0x10, 0xAB, 0x05] 4
       = Some (True, \<lparr>packet = [0x20, 0x10, 0xAB] @ replicate 126 0, packet_len = 3\<rparr>, [0x05], 1)"
proof -
  have wf: "well_formed initial_assembler"
    by (simp add: well_formed_def initial_assembler_def packet_capacity_def)
  have le: "packet_len initial_assembler \<le> expected_length (packet initial_assembler)"
    by (simp add: initial_assembler_def)
  have n: "(4 :: nat) \<le> length [0x20, 0x10, 0xAB, 0x05 :: byte]"
    by simp
  have run: "next_packet initial_assembler [0x20, 0x10, 0xAB, 0x05] 4
       = Some (True, \<lparr>packet = [0x20, 0x10, 0xAB] @ replicate 126 0, packet_len = 3\<rparr>, [0x05], 1)"
    by (simp add: assembler_eval initial_assembler_def expected_length_0x20_0x10)
  from next_packet_conservation [OF wf le n] wf le n run show ?thesis
    by blast
qed

section \<open>The stream reader\<close>

text \<open>
  C3, the keepalive cadence as the code has it.  \<open>if (timer++ < 10) return 1;\<close> lets
  ten idle polls pass and pings on the eleventh: starting from \<open>timer = 0\<close>, a run of
  consecutive idle polls writes one keepalive byte \<open>0x10\<close> for every 11 polls, and the
  counter is the number of polls since the last ping.  The counter is reset to 0 in the
  call that writes a ping and in every call in which data arrives.
\<close>

theorem keepalive_cadence:
  "(\<forall>r oss. timer r = 0 \<and> (\<forall>os \<in> set oss. idle os) \<longrightarrow>
      (\<exists>tr r'. poll_calls r oss = Some (tr, r')
         \<and> written tr = replicate (length oss div 11) 0x10
         \<and> timer r' = int (length oss mod 11)))
   \<and> (\<forall>r os. idle os \<and> 10 \<le> timer r \<and> timer r < INT_MAX \<longrightarrow>
         read_stream r os = Some (1, r\<lparr>timer := 0\<rparr>, [Poll, Write [0x10]]))
   \<and> (\<forall>r os. data_arrives os \<and> awaiting (assembly r) \<longrightarrow>
         (\<exists>r'. read_stream r os = Some (read_ret os, r', [Poll, Read 512]) \<and> timer r' = 0))"
proof (intro conjI allI impI)
  fix r :: reader and oss :: "os_reply list"
  assume h: "timer r = 0 \<and> (\<forall>os \<in> set oss. idle os)"
  then have t: "timer r = int 0" and i: "\<forall>os \<in> set oss. idle os" by simp_all
  from idle_calls [OF i t] show "\<exists>tr r'. poll_calls r oss = Some (tr, r')
         \<and> written tr = replicate (length oss div 11) 0x10
         \<and> timer r' = int (length oss mod 11)"
    by auto
next
  fix r :: reader and os :: os_reply
  assume "idle os \<and> 10 \<le> timer r \<and> timer r < INT_MAX"
  then show "read_stream r os = Some (1, r\<lparr>timer := 0\<rparr>, [Poll, Write [0x10]])"
    by (simp add: read_stream_def idle_def)
next
  fix r :: reader and os :: os_reply
  assume "data_arrives os \<and> awaiting (assembly r)"
  then have "data_arrives os" and "awaiting (assembly r)" by simp_all
  from data_call [OF this] obtain a' where
    "read_stream r os = Some (read_ret os, r\<lparr>timer := 0, assembly := a'\<rparr>, [Poll, Read 512])"
    by blast
  then show "\<exists>r'. read_stream r os = Some (read_ret os, r', [Poll, Read 512]) \<and> timer r' = 0"
    by simp
qed

theorem keepalive_cadence_witness:
  "timer initial_reader = 0
   \<and> idle quiet
   \<and> (\<exists>tr r'. poll_calls initial_reader (replicate 11 quiet) = Some (tr, r')
         \<and> written tr = [0x10] \<and> timer r' = 0)
   \<and> 10 \<le> timer (initial_reader\<lparr>timer := 10\<rparr>)
   \<and> timer (initial_reader\<lparr>timer := 10\<rparr>) < INT_MAX
   \<and> read_stream (initial_reader\<lparr>timer := 10\<rparr>) quiet
       = Some (1, initial_reader, [Poll, Write [0x10]])
   \<and> data_arrives \<lparr>poll_ret = 1, poll_revents = POLLIN, write_ret = 0, read_ret = 3,
                    read_buf = [0x20, 0x10, 0xAB]\<rparr>
   \<and> awaiting (assembly (initial_reader\<lparr>timer := 7\<rparr>))
   \<and> (\<exists>r'. read_stream (initial_reader\<lparr>timer := 7\<rparr>)
               \<lparr>poll_ret = 1, poll_revents = POLLIN, write_ret = 0, read_ret = 3,
                read_buf = [0x20, 0x10, 0xAB]\<rparr>
             = Some (3, r', [Poll, Read 512]) \<and> timer r' = 0)"
proof -
  have t: "timer initial_reader = 0"
    by (simp add: initial_reader_def)
  have i: "\<forall>os \<in> set (replicate 11 quiet). idle os"
    by (simp add: idle_quiet)
  have p: "10 \<le> timer (initial_reader\<lparr>timer := 10\<rparr>)"
    "timer (initial_reader\<lparr>timer := 10\<rparr>) < INT_MAX"
    by (simp_all add: INT_MAX_def)
  have d: "data_arrives \<lparr>poll_ret = 1, poll_revents = POLLIN, write_ret = 0, read_ret = 3,
                    read_buf = [0x20, 0x10, 0xAB]\<rparr>"
    by (simp add: data_arrives_def POLLIN_def POLLERR_def POLLNVAL_def POLLHUP_def)
  have aw: "awaiting (assembly (initial_reader\<lparr>timer := 7\<rparr>))"
    by (simp add: initial_reader_def awaiting_initial)
  have z: "initial_reader\<lparr>timer := 10\<rparr>\<lparr>timer := 0\<rparr> = initial_reader"
    by (simp add: initial_reader_def)
  have "\<exists>tr r'. poll_calls initial_reader (replicate 11 quiet) = Some (tr, r')
         \<and> written tr = replicate (length (replicate 11 quiet) div 11) 0x10
         \<and> timer r' = int (length (replicate 11 quiet) mod 11)"
    using keepalive_cadence t i by blast
  then have c1: "\<exists>tr r'. poll_calls initial_reader (replicate 11 quiet) = Some (tr, r')
         \<and> written tr = [0x10] \<and> timer r' = 0"
    by simp
  have "read_stream (initial_reader\<lparr>timer := 10\<rparr>) quiet
          = Some (1, initial_reader\<lparr>timer := 10\<rparr>\<lparr>timer := 0\<rparr>, [Poll, Write [0x10]])"
    using keepalive_cadence idle_quiet p by blast
  then have c2: "read_stream (initial_reader\<lparr>timer := 10\<rparr>) quiet
          = Some (1, initial_reader, [Poll, Write [0x10]])"
    unfolding z .
  have c3: "\<exists>r'. read_stream (initial_reader\<lparr>timer := 7\<rparr>)
               \<lparr>poll_ret = 1, poll_revents = POLLIN, write_ret = 0, read_ret = 3,
                read_buf = [0x20, 0x10, 0xAB]\<rparr>
             = Some (read_ret \<lparr>poll_ret = 1, poll_revents = POLLIN, write_ret = 0, read_ret = 3,
                read_buf = [0x20, 0x10, 0xAB]\<rparr>, r', [Poll, Read 512]) \<and> timer r' = 0"
    using keepalive_cadence d aw by blast
  show ?thesis
    using t c1 idle_quiet p c2 d aw c3 by simp
qed

text \<open>
  One keepalive byte per 10 consecutive idle polls is not what the code does: ten idle
  polls from \<open>timer = 0\<close> make ten calls of \<open>poll\<close> and write nothing.
\<close>

theorem keepalive_cadence_counterexample:
  "idle quiet
   \<and> poll_calls initial_reader [quiet, quiet, quiet, quiet, quiet, quiet, quiet, quiet, quiet, quiet]
       = Some ([Poll, Poll, Poll, Poll, Poll, Poll, Poll, Poll, Poll, Poll],
               initial_reader\<lparr>timer := 10\<rparr>)
   \<and> written [Poll, Poll, Poll, Poll, Poll, Poll, Poll, Poll, Poll, Poll] \<noteq> [0x10]"
  by (simp add: idle_def read_stream_def quiet_def initial_reader_def INT_MAX_def)

text \<open>
  C8, shutdown detection as the code has it.  The error flags are tested before the
  hang-up flag.  When \<open>poll\<close> reports a hang-up with neither \<open>POLLERR\<close> nor
  \<open>POLLNVAL\<close> set, the call makes the two system calls \<open>poll\<close> and \<open>close\<close> and
  returns 0; when it reads and \<open>read\<close> returns 0, it makes \<open>poll\<close>, \<open>read\<close> and
  \<open>close\<close> and returns 0.  On a connection that was open until then, this is the only
  \<open>close\<close> and the only result that is not positive; it ends the connection, so no
  system call follows it, whatever the operating system would answer next.  Over any
  connection the socket is closed at most once, by the last system call made, and at most
  one call returns 0 or less.
\<close>

theorem shutdown_detection:
  "(\<forall>r os. hang_up os \<longrightarrow> read_stream r os = Some (0, r, [Poll, Close]))
   \<and> (\<forall>r os. zero_read os \<longrightarrow> read_stream r os = Some (0, r, [Poll, Read 512, Close]))
   \<and> (\<forall>r oss os later rets tr r'.
         connection r oss = Some (rets, tr, r') \<and> (\<forall>x \<in> set rets. 0 < x)
         \<and> (hang_up os \<or> zero_read os) \<longrightarrow>
         Close \<notin> set tr
         \<and> connection r (oss @ os # later)
             = Some (rets @ [0],
                     tr @ (if hang_up os then [Poll, Close] else [Poll, Read 512, Close]), r'))
   \<and> (\<forall>r oss rets tr r'.
         connection r oss = Some (rets, tr, r') \<longrightarrow>
         count_list tr Close \<le> 1 \<and> (Close \<in> set tr \<longrightarrow> last tr = Close)
         \<and> length (filter (\<lambda>x. x \<le> 0) rets) \<le> 1
         \<and> (Close \<in> set tr \<longleftrightarrow> (\<exists>x \<in> set rets. x \<le> 0)))"
proof (intro conjI allI impI)
  fix r :: reader and os :: os_reply
  assume "hang_up os"
  then show "read_stream r os = Some (0, r, [Poll, Close])"
    by (rule hang_up_call)
next
  fix r :: reader and os :: os_reply
  assume "zero_read os"
  then show "read_stream r os = Some (0, r, [Poll, Read 512, Close])"
    by (rule zero_read_call)
next
  fix r r' :: reader and oss later :: "os_reply list" and os :: os_reply
    and rets :: "int list" and tr :: "syscall list"
  assume h: "connection r oss = Some (rets, tr, r') \<and> (\<forall>x \<in> set rets. 0 < x)
         \<and> (hang_up os \<or> zero_read os)"
  then have c: "connection r oss = Some (rets, tr, r')" and p: "\<forall>x \<in> set rets. 0 < x"
    and s: "hang_up os \<or> zero_read os" by simp_all
  have call: "read_stream r' os
                = Some (0, r', if hang_up os then [Poll, Close] else [Poll, Read 512, Close])"
    using s hang_up_call [of os r'] zero_read_call [of os r'] by auto
  from connection_open [OF c p call, of later]
  show "Close \<notin> set tr" and "connection r (oss @ os # later)
             = Some (rets @ [0],
                     tr @ (if hang_up os then [Poll, Close] else [Poll, Read 512, Close]), r')"
    by simp_all
next
  fix r r' :: reader and oss :: "os_reply list" and rets :: "int list" and tr :: "syscall list"
  assume c: "connection r oss = Some (rets, tr, r')"
  note once = connection_closes_once [OF c]
  show "count_list tr Close \<le> 1" using once by simp
  show "length (filter (\<lambda>x. x \<le> 0) rets) \<le> 1" using once by simp
  show "Close \<in> set tr \<longleftrightarrow> (\<exists>x \<in> set rets. x \<le> 0)" using once by simp
  show "last tr = Close" if "Close \<in> set tr" using once that by simp
qed

theorem shutdown_detection_witness:
  "hang_up hung_up
   \<and> read_stream initial_reader hung_up = Some (0, initial_reader, [Poll, Close])
   \<and> zero_read end_of_stream
   \<and> read_stream initial_reader end_of_stream = Some (0, initial_reader, [Poll, Read 512, Close])
   \<and> connection initial_reader [quiet] = Some ([1], [Poll], initial_reader\<lparr>timer := 1\<rparr>)
   \<and> Close \<notin> set [Poll]
   \<and> connection initial_reader [quiet, hung_up, quiet, hung_up]
       = Some ([1, 0], [Poll, Poll, Close], initial_reader\<lparr>timer := 1\<rparr>)
   \<and> connection initial_reader [quiet, end_of_stream, quiet]
       = Some ([1, 0], [Poll, Poll, Read 512, Close], initial_reader\<lparr>timer := 1\<rparr>)
   \<and> count_list [Poll, Poll, Close] Close \<le> 1 \<and> last [Poll, Poll, Close] = Close
   \<and> length (filter (\<lambda>x. x \<le> 0) [1, 0 :: int]) \<le> 1"
proof -
  have h: "hang_up hung_up"
    by (simp add: hang_up_def hung_up_def POLLIN_def POLLERR_def POLLNVAL_def POLLHUP_def)
  have z: "zero_read end_of_stream"
    by (simp add: zero_read_def end_of_stream_def POLLIN_def POLLERR_def POLLNVAL_def
        POLLHUP_def)
  have nh: "\<not> hang_up end_of_stream"
    by (simp add: hang_up_def end_of_stream_def POLLIN_def POLLERR_def POLLNVAL_def
        POLLHUP_def)
  have q: "connection initial_reader [quiet] = Some ([1], [Poll], initial_reader\<lparr>timer := 1\<rparr>)"
    by (simp add: read_stream_def quiet_def initial_reader_def INT_MAX_def)
  have p: "\<forall>x \<in> set [1 :: int]. 0 < x"
    by simp
  have c1: "read_stream initial_reader hung_up = Some (0, initial_reader, [Poll, Close])"
    using shutdown_detection h by blast
  have c2: "read_stream initial_reader end_of_stream
              = Some (0, initial_reader, [Poll, Read 512, Close])"
    using shutdown_detection z by blast
  have "Close \<notin> set [Poll]
        \<and> connection initial_reader ([quiet] @ hung_up # [quiet, hung_up])
            = Some ([1] @ [0],
                    [Poll] @ (if hang_up hung_up then [Poll, Close] else [Poll, Read 512, Close]),
                    initial_reader\<lparr>timer := 1\<rparr>)"
    using shutdown_detection q p h by blast
  then have c3: "connection initial_reader [quiet, hung_up, quiet, hung_up]
       = Some ([1, 0], [Poll, Poll, Close], initial_reader\<lparr>timer := 1\<rparr>)"
    using h by simp
  have "Close \<notin> set [Poll]
        \<and> connection initial_reader ([quiet] @ end_of_stream # [quiet])
            = Some ([1] @ [0],
                    [Poll] @ (if hang_up end_of_stream then [Poll, Close]
                              else [Poll, Read 512, Close]),
                    initial_reader\<lparr>timer := 1\<rparr>)"
    using shutdown_detection q p z by blast
  then have c4: "connection initial_reader [quiet, end_of_stream, quiet]
       = Some ([1, 0], [Poll, Poll, Read 512, Close], initial_reader\<lparr>timer := 1\<rparr>)"
    using nh by simp
  have c5: "count_list [Poll, Poll, Close] Close \<le> 1 \<and> last [Poll, Poll, Close] = Close
            \<and> length (filter (\<lambda>x. x \<le> 0) [1, 0 :: int]) \<le> 1"
    using shutdown_detection c3 by simp
  show ?thesis
    using h z q c1 c2 c3 c4 c5 by simp
qed

text \<open>
  A hang-up reported together with an error is handled as an error: the socket is
  closed and the call returns -1, not 0.
\<close>

theorem shutdown_detection_counterexample:
  "0 < poll_ret \<lparr>poll_ret = 1, poll_revents = POLLERR OR POLLHUP, write_ret = 0, read_ret = 0,
                 read_buf = []\<rparr>
   \<and> (POLLERR OR POLLHUP) AND POLLHUP \<noteq> 0
   \<and> read_stream initial_reader
        \<lparr>poll_ret = 1, poll_revents = POLLERR OR POLLHUP, write_ret = 0, read_ret = 0,
         read_buf = []\<rparr>
       = Some (- 1, initial_reader, [Poll, Close])"
  by (simp add: read_stream_def POLLIN_def POLLERR_def POLLNVAL_def POLLHUP_def)

end
